theory Spec2Isabelle
  imports Main "HOL-Library.Word" "HOL-Library.Monad_Syntax"
begin

unbundle bit_operations_syntax

section \<open>Data model\<close>

text \<open>
  \<^verbatim>\<open>genomics.Region\<close>: the reference id is an \<^verbatim>\<open>int32\<close> (read with \<open>sint\<close>, compared
  with the signed order), start and end are \<^verbatim>\<open>uint32\<close>.
\<close>

record Region =
  ReferenceID :: "32 word"
  Start :: "32 word"
  End :: "32 word"

section \<open>Package csi: coordinate binning and the bin filter\<close>

definition maximumReadLength :: "32 word" where
  "maximumReadLength = push_bit 29 1"

definition MetadataBeanID :: "32 word" where
  "MetadataBeanID = 37450"

text \<open>The \<^verbatim>\<open>for _, id := range bins\<close> loop of \<^verbatim>\<open>RegionContainsBin\<close>.\<close>

fun bins_range :: "16 word list \<Rightarrow> 32 word \<Rightarrow> bool" where
  "bins_range [] binID = False"
| "bins_range (id' # bins) binID = (if ucast id' = binID then True else bins_range bins binID)"

definition RegionContainsBin :: "Region \<Rightarrow> 32 word \<Rightarrow> 32 word \<Rightarrow> 16 word list \<Rightarrow> bool" where
  "RegionContainsBin region referenceID binID bins =
     (if 0 \<le>s ReferenceID region \<and> referenceID \<noteq> ReferenceID region then False
      else if Region.Start region = 0 \<and> Region.End region = 0 then True
      else bins_range bins binID)"

text \<open>
  \<^verbatim>\<open>BinsForRange\<close>. Go's \<^verbatim>\<open>uint\<close> is taken as 64 bits wide; \<^verbatim>\<open>uint(x)\<close> of an
  \<^verbatim>\<open>int32\<close> sign-extends (\<open>scast\<close>), of a \<^verbatim>\<open>uint32\<close> zero-extends (\<open>ucast\<close>), and
  \<^verbatim>\<open>uint16(i)\<close> keeps the low 16 bits (\<open>ucast\<close>). A Go shift by 64 or more gives 0,
  as \<open>drop_bit\<close> and \<open>push_bit\<close> do on a 64-bit word. Neither loop has a bound
  other than its unsigned comparison, so both are partial functions: \<open>None\<close> is
  a loop that never exits.
\<close>

text \<open>\<^verbatim>\<open>for i := b; i <= e; i++ { bins = append(bins, uint16(i)) }\<close>\<close>

partial_function (option) bins_loop ::
  "64 word \<Rightarrow> 64 word \<Rightarrow> 16 word list \<Rightarrow> 16 word list option" where
  "bins_loop i e bins =
     (if i \<le> e then bins_loop (i + 1) e (bins @ [ucast i]) else Some bins)"

text \<open>
  \<^verbatim>\<open>for l, t, s := uint(0), uint(0), uint(minShift+depth*3); l <= uint(depth); l++\<close>
  with the body computing \<^verbatim>\<open>b\<close> and \<^verbatim>\<open>e\<close>, running the inner loop, then
  \<^verbatim>\<open>s -= 3\<close> and \<^verbatim>\<open>t += 1 << (l * 3)\<close>.
\<close>

partial_function (option) levels_loop ::
  "32 word \<Rightarrow> 32 word \<Rightarrow> 32 word \<Rightarrow> 64 word \<Rightarrow> 64 word \<Rightarrow> 64 word \<Rightarrow> 16 word list
     \<Rightarrow> 16 word list option" where
  "levels_loop start end1 depth l t s bins =
     (if l \<le> scast depth then
        bins_loop (t + drop_bit (unat s) (ucast start)) (t + drop_bit (unat s) (ucast end1)) bins
          \<bind> (\<lambda>bins'. levels_loop start end1 depth (l + 1)
                          (t + push_bit (unat (l * 3)) 1) (s - 3) bins')
      else Some bins)"

declare bins_loop.simps [code] levels_loop.simps [code]

definition BinsForRange ::
  "32 word \<Rightarrow> 32 word \<Rightarrow> 32 word \<Rightarrow> 32 word \<Rightarrow> 16 word list option" where
  "BinsForRange start end0 minShift depth =
     (let end1 = (if end0 = 0 \<or> maximumReadLength < end0 then maximumReadLength else end0)
      in if end1 \<le> start then Some []
         else if maximumReadLength < start then Some []
         else levels_loop start (end1 - 1) depth 0 0 (scast (minShift + depth * 3)) [])"

section \<open>Package bgzf and the binary helpers\<close>

text \<open>
  Modelled from the spec: \<^verbatim>\<open>bgzf.Address\<close>, \<^verbatim>\<open>bgzf.Chunk\<close> and \<^verbatim>\<open>bgzf.LastAddress\<close>
  are not among the sources. A virtual offset is an unsigned 64-bit value compared as
  such, a chunk is a pair of them, and the reserved maximal value stands for an
  unbounded end.
\<close>

record Chunk =
  Start :: "64 word"
  End :: "64 word"

definition LastAddress :: "64 word" where
  "LastAddress = - 1"

text \<open>
  The readers work on the decompressed content of the gzip stream, held as the list of
  bytes not yet consumed; a read that asks for more bytes than are left fails, which is
  also how a stream that breaks off early shows itself.

  Modelled from the spec: \<^verbatim>\<open>binary.ExpectBytes\<close> is not among the sources. It reads as
  many bytes as the magic has and compares them, as \<^verbatim>\<open>CheckMagic\<close> of package common does;
  a short read and a mismatch are kept apart.
\<close>

type_synonym byte = "8 word"

datatype magic_error = ReadingMagic | WrongMagic

definition ExpectBytes :: "'a list \<Rightarrow> 'a list \<Rightarrow> magic_error + 'a list" where
  "ExpectBytes r want =
     (if length r < length want then Inl ReadingMagic
      else if take (length want) r \<noteq> want then Inl WrongMagic
      else Inr (drop (length want) r))"

text \<open>\<^verbatim>\<open>binary.Read\<close> with \<^verbatim>\<open>binary.LittleEndian\<close>: the first byte is the least significant.\<close>

fun le_word :: "byte list \<Rightarrow> 'a::len word" where
  "le_word [] = 0"
| "le_word (b # bs) = ucast b OR push_bit 8 (le_word bs)"

definition read_int32 :: "byte list \<Rightarrow> (32 word \<times> byte list) option" where
  "read_int32 r = (if length r < 4 then None else Some (le_word (take 4 r), drop 4 r))"

text \<open>
  The anonymous struct \<^verbatim>\<open>{ID uint32; Offset uint64; Chunks int32}\<close> read per bin:
  sixteen bytes, fields in declaration order, no padding.
\<close>

record bin_header =
  ID :: "32 word"
  Offset :: "64 word"
  Chunks :: "32 word"

definition read_bin :: "byte list \<Rightarrow> (bin_header \<times> byte list) option" where
  "read_bin r =
     (if length r < 16 then None
      else Some (\<lparr>ID = le_word (take 4 r), Offset = le_word (take 8 (drop 4 r)),
                  Chunks = le_word (take 4 (drop 12 r))\<rparr>, drop 16 r))"

definition read_Chunk :: "byte list \<Rightarrow> (Chunk \<times> byte list) option" where
  "read_Chunk r =
     (if length r < 16 then None
      else Some (\<lparr>Chunk.Start = le_word (take 8 r), Chunk.End = le_word (take 8 (drop 8 r))\<rparr>,
                 drop 16 r))"

text \<open>
  \<^verbatim>\<open>io.CopyN(ioutil.Discard, gzr, n)\<close>: it copies through a reader limited to \<open>n\<close> bytes,
  which yields nothing when \<open>n \<le> 0\<close>; it succeeds when the count written equals \<open>n\<close>,
  reports the end of the stream when fewer than \<open>n\<close> were written, and otherwise
  (more written than a negative \<open>n\<close>) returns without an error.
\<close>

definition CopyN_Discard :: "byte list \<Rightarrow> int \<Rightarrow> byte list option" where
  "CopyN_Discard r n =
     (let written = (if n \<le> 0 then 0 else min (int (length r)) n)
      in if written = n then Some (drop (nat written) r)
         else if written < n then None
         else Some (drop (nat written) r))"

section \<open>Package bcf: the index decoder\<close>

definition csiMagic :: "byte list" where
  "csiMagic = [0x43, 0x53, 0x49, 0x01]"

datatype csi_error =
    CheckingMagic magic_error
  | ReadingMinShift
  | ReadingDepth
  | ReadingAuxLength
  | ReadingPastAux
  | ReadingRefCount
  | ReadingBinCount
  | ReadingBinHeader
  | ReadingChunk

text \<open>
  The state threaded through the three loops of \<^verbatim>\<open>Read\<close>: the unread bytes, the header
  chunk, and the chunks appended after it. In the source \<^verbatim>\<open>header\<close> is a pointer and
  \<^verbatim>\<open>chunks[0]\<close> is that same pointer, so every assignment to \<^verbatim>\<open>header.End\<close> is seen
  through the returned slice; the model keeps the header apart and puts it in front when
  \<^verbatim>\<open>Read\<close> returns. \<^verbatim>\<open>chunk\<close> is declared inside the loop body, so each appended
  pointer has a value of its own.
\<close>

type_synonym decode_state = "byte list \<times> Chunk \<times> Chunk list"

text \<open>\<^verbatim>\<open>for k := int32(0); k < bin.Chunks; k++\<close>\<close>

function chunks_loop ::
  "bin_header \<Rightarrow> bool \<Rightarrow> 32 word \<Rightarrow> decode_state \<Rightarrow> csi_error + decode_state" where
  "chunks_loop bin includeChunks k (gzr, header, chunks) =
     (if k <s Chunks bin then
        (case read_Chunk gzr of
           None \<Rightarrow> Inl ReadingChunk
         | Some (chunk, gzr') \<Rightarrow>
             if ID bin = MetadataBeanID
             then chunks_loop bin includeChunks (k + 1) (gzr', header, chunks)
             else chunks_loop bin includeChunks (k + 1)
                    (gzr',
                     (if Chunk.Start chunk < Chunk.End header
                      then header\<lparr>Chunk.End := Chunk.Start chunk\<rparr> else header),
                     (if includeChunks \<and> Offset bin \<le> Chunk.End chunk
                      then chunks @ [chunk] else chunks)))
      else Inr (gzr, header, chunks))"
  by pat_completeness auto
termination
proof -
  have succ: "sint (k + 1) = sint k + 1" if "k <s n" for k n :: "32 word"
  proof -
    from that have "sint k < sint n" by (simp add: word_sless_alt)
    moreover have "sint n < 2 ^ 31" using sint_lt [of n] by simp
    moreover have "- (2 ^ 31) \<le> sint k" using sint_ge [of k] by simp
    ultimately have "signed_take_bit 31 (sint k + 1) = sint k + 1"
      by (intro signed_take_bit_int_eq_self) auto
    then show ?thesis by (simp add: sint_word_ariths)
  qed
  show ?thesis
    by (relation "measure (\<lambda>(bin, inc, k, st). nat (sint (Chunks bin) - sint k))")
       (auto simp: succ word_sless_alt)
qed

text \<open>\<^verbatim>\<open>for j := int32(0); j < binCount; j++\<close>\<close>

function bin_records_loop ::
  "Region \<Rightarrow> 16 word list \<Rightarrow> 32 word \<Rightarrow> 32 word \<Rightarrow> 32 word \<Rightarrow> decode_state
     \<Rightarrow> csi_error + decode_state" where
  "bin_records_loop region bins reference binCount j (gzr, header, chunks) =
     (if j <s binCount then
        (case read_bin gzr of
           None \<Rightarrow> Inl ReadingBinHeader
         | Some (bin, gzr') \<Rightarrow>
             (case chunks_loop bin (RegionContainsBin region reference (ID bin) bins) 0
                     (gzr', header, chunks) of
                Inl e \<Rightarrow> Inl e
              | Inr st \<Rightarrow> bin_records_loop region bins reference binCount (j + 1) st))
      else Inr (gzr, header, chunks))"
  by pat_completeness auto
termination
proof -
  have succ: "sint (k + 1) = sint k + 1" if "k <s n" for k n :: "32 word"
  proof -
    from that have "sint k < sint n" by (simp add: word_sless_alt)
    moreover have "sint n < 2 ^ 31" using sint_lt [of n] by simp
    moreover have "- (2 ^ 31) \<le> sint k" using sint_ge [of k] by simp
    ultimately have "signed_take_bit 31 (sint k + 1) = sint k + 1"
      by (intro signed_take_bit_int_eq_self) auto
    then show ?thesis by (simp add: sint_word_ariths)
  qed
  show ?thesis
    by (relation "measure (\<lambda>(region, bins, reference, binCount, j, st).
                     nat (sint binCount - sint j))")
       (auto simp: succ word_sless_alt)
qed

text \<open>\<^verbatim>\<open>for reference := int32(0); reference < refCount; reference++\<close>\<close>

function references_loop ::
  "Region \<Rightarrow> 16 word list \<Rightarrow> 32 word \<Rightarrow> 32 word \<Rightarrow> decode_state \<Rightarrow> csi_error + decode_state" where
  "references_loop region bins refCount reference (gzr, header, chunks) =
     (if reference <s refCount then
        (case read_int32 gzr of
           None \<Rightarrow> Inl ReadingBinCount
         | Some (binCount, gzr') \<Rightarrow>
             (case bin_records_loop region bins reference binCount 0 (gzr', header, chunks) of
                Inl e \<Rightarrow> Inl e
              | Inr st \<Rightarrow> references_loop region bins refCount (reference + 1) st))
      else Inr (gzr, header, chunks))"
  by pat_completeness auto
termination
proof -
  have succ: "sint (k + 1) = sint k + 1" if "k <s n" for k n :: "32 word"
  proof -
    from that have "sint k < sint n" by (simp add: word_sless_alt)
    moreover have "sint n < 2 ^ 31" using sint_lt [of n] by simp
    moreover have "- (2 ^ 31) \<le> sint k" using sint_ge [of k] by simp
    ultimately have "signed_take_bit 31 (sint k + 1) = sint k + 1"
      by (intro signed_take_bit_int_eq_self) auto
    then show ?thesis by (simp add: sint_word_ariths)
  qed
  show ?thesis
    by (relation "measure (\<lambda>(region, bins, refCount, reference, st).
                     nat (sint refCount - sint reference))")
       (auto simp: succ word_sless_alt)
qed

text \<open>
  \<^verbatim>\<open>Read\<close>. The outer \<open>option\<close> is \<open>None\<close> when \<^verbatim>\<open>BinsForRange\<close> never returns; inside
  it, \<open>Inl\<close> is the error \<^verbatim>\<open>Read\<close> returns and \<open>Inr\<close> the chunk list.
\<close>

definition Read :: "byte list \<Rightarrow> Region \<Rightarrow> (csi_error + Chunk list) option" where
  "Read csiFile region =
     (case ExpectBytes csiFile csiMagic of
        Inl e \<Rightarrow> Some (Inl (CheckingMagic e))
      | Inr gzr1 \<Rightarrow>
     (case read_int32 gzr1 of
        None \<Rightarrow> Some (Inl ReadingMinShift)
      | Some (minShift, gzr2) \<Rightarrow>
     (case read_int32 gzr2 of
        None \<Rightarrow> Some (Inl ReadingDepth)
      | Some (depth, gzr3) \<Rightarrow>
     (case BinsForRange (Region.Start region) (Region.End region) minShift depth of
        None \<Rightarrow> None
      | Some bins \<Rightarrow> Some
     (case read_int32 gzr3 of
        None \<Rightarrow> Inl ReadingAuxLength
      | Some (laux, gzr4) \<Rightarrow>
     (case CopyN_Discard gzr4 (sint laux) of
        None \<Rightarrow> Inl ReadingPastAux
      | Some gzr5 \<Rightarrow>
     (case read_int32 gzr5 of
        None \<Rightarrow> Inl ReadingRefCount
      | Some (refCount, gzr6) \<Rightarrow>
     (case references_loop region bins refCount 0
             (gzr6, \<lparr>Chunk.Start = 0, Chunk.End = LastAddress\<rparr>, []) of
        Inl e \<Rightarrow> Inl e
      | Inr (gzr, header, chunks) \<Rightarrow> Inr (header # chunks)))))))))"

section \<open>Package bcf: the reference resolver\<close>

text \<open>\<^verbatim>\<open>strings.HasPrefix\<close> and \<^verbatim>\<open>strings.Index\<close> (the first position, or \<open>-1\<close>).\<close>

definition HasPrefix :: "string \<Rightarrow> string \<Rightarrow> bool" where
  "HasPrefix s pre = (length pre \<le> length s \<and> take (length pre) s = pre)"

fun Index :: "string \<Rightarrow> string \<Rightarrow> int" where
  "Index [] substr = (if substr = [] then 0 else - 1)"
| "Index (c # s) substr =
     (if HasPrefix (c # s) substr then 0
      else (let i = Index s substr in if i = - 1 then - 1 else i + 1))"

text \<open>
  \<^verbatim>\<open>contigDefinesReference\<close>. Indexing a Go string outside its bounds panics: that is the
  result \<open>None\<close>.
\<close>

definition contigDefinesReference :: "string \<Rightarrow> string \<Rightarrow> bool option" where
  "contigDefinesReference contig refName =
     (let index = Index contig (''ID='' @ refName)
      in if index = - 1 then Some False
         else (let pos = index + int (length ''ID='') + int (length refName)
               in if pos < 0 \<or> int (length contig) \<le> pos then None
                  else (let nextChr = contig ! nat pos
                        in if nextChr \<noteq> CHR '','' \<and> nextChr \<noteq> CHR ''>'' then Some False
                           else Some True)))"






text \<open>
  \<^verbatim>\<open>bufio.Scanner\<close> with its default split function \<^verbatim>\<open>ScanLines\<close>, run to the end of the
  input: the lines without their terminator (a line feed, with one carriage return before
  it dropped), a last line without terminator included when it is not empty. A line that
  does not fit the scanner's buffer of \<^verbatim>\<open>MaxScanTokenSize\<close> bytes ends the scan with an
  error, which is the flag returned beside the lines.
\<close>

definition MaxScanTokenSize :: nat where
  "MaxScanTokenSize = 64 * 1024"

definition dropCR :: "string \<Rightarrow> string" where
  "dropCR data = (if data \<noteq> [] \<and> last data = CHR 0x0D then butlast data else data)"

function Scan :: "string \<Rightarrow> string list \<times> bool" where
  "Scan data =
     (if data = [] then ([], False)
      else (let line = takeWhile (\<lambda>c. c \<noteq> CHR 0x0A) data;
                rest = dropWhile (\<lambda>c. c \<noteq> CHR 0x0A) data
            in if MaxScanTokenSize \<le> length line then ([], True)
               else if rest = [] then ([dropCR line], False)
               else (case Scan (tl rest) of (tokens, err) \<Rightarrow> (dropCR line # tokens, err))))"
  by pat_completeness auto
termination
proof (relation "measure length")
  show "wf (measure length)" by simp
next
  fix data :: string and x xa
  assume "data \<noteq> []" and xa: "xa = dropWhile (\<lambda>c. c \<noteq> CHR 0x0A) data" and "xa \<noteq> []"
  then have "length (tl xa) < length xa" by simp
  moreover have "length xa \<le> length data"
    using xa by (simp add: length_dropWhile_le)
  ultimately show "(tl xa, data) \<in> measure length" by simp
qed






section \<open>Package api: the request orchestrator\<close>

text \<open>
  \<^verbatim>\<open>chunksRequest\<close>. The candidates are values of a type \<open>'o\<close>; what opening one gives is
  the parameter \<open>NewReader\<close> (the storage library's \<^verbatim>\<open>ObjectHandle.NewReader\<close>), an error
  of type \<open>'e\<close> or a reader of type \<open>'r\<close>. A \<^verbatim>\<open>*storage.Reader\<close> may be nil: \<open>'r option\<close>.
  \<^verbatim>\<open>bgzf.Merge\<close> is not among the sources and is a parameter too.

  Modelled from the spec: \<^verbatim>\<open>newStorageError\<close> is not among the sources; it wraps the
  underlying error, with the operation's name, as a storage-access failure.
\<close>

record ('o, 'r, 'f) chunksRequest =
  indexObjects :: "'o list"
  blockSizeLimit :: "64 word"
  region :: Region
  read :: "'r option \<Rightarrow> Region \<Rightarrow> 'f + Chunk list"

datatype ('e, 'f) api_error = StorageError string 'e | ReadingIndex 'f

text \<open>What \<^verbatim>\<open>handle\<close> does to the outside, in order.\<close>

datatype ('o, 'r) event = OpenObject 'o | CallRead "'r option" | CallClose "'r option"

text \<open>
  \<^verbatim>\<open>for _, object := range req.indexObjects\<close>, assigning \<^verbatim>\<open>index\<close> and \<^verbatim>\<open>err\<close> and
  leaving at the first \<^verbatim>\<open>err == nil\<close>. A failed open returns a nil reader.
\<close>

fun open_loop ::
  "('o \<Rightarrow> 'e + 'r) \<Rightarrow> 'o list \<Rightarrow> 'r option \<Rightarrow> 'e option \<Rightarrow> ('o, 'r) event list
     \<Rightarrow> 'r option \<times> 'e option \<times> ('o, 'r) event list" where
  "open_loop NewReader [] index err trace = (index, err, trace)"
| "open_loop NewReader (object # objects) index err trace =
     (case NewReader object of
        Inr r \<Rightarrow> (Some r, None, trace @ [OpenObject object])
      | Inl e \<Rightarrow> open_loop NewReader objects None (Some e) (trace @ [OpenObject object]))"

text \<open>
  \<^verbatim>\<open>handle\<close>: the events and the value returned. The deferred \<^verbatim>\<open>index.Close()\<close> runs
  after \<^verbatim>\<open>req.read\<close> on both paths that follow it.
\<close>

definition handle ::
  "('o \<Rightarrow> 'e + 'r) \<Rightarrow> (Chunk list \<Rightarrow> 64 word \<Rightarrow> Chunk list) \<Rightarrow> ('o, 'r, 'f) chunksRequest
     \<Rightarrow> ('o, 'r) event list \<times> (('e, 'f) api_error + Chunk list)" where
  "handle NewReader Merge req =
     (case open_loop NewReader (indexObjects req) None None [] of
        (index, err, trace) \<Rightarrow>
          (case err of
             Some e \<Rightarrow> (trace, Inl (StorageError ''opening index'' e))
           | None \<Rightarrow>
               (case read req index (region req) of
                  Inl e \<Rightarrow> (trace @ [CallRead index, CallClose index], Inl (ReadingIndex e))
                | Inr chunks \<Rightarrow>
                    (trace @ [CallRead index, CallClose index],
                     Inr (Merge chunks (blockSizeLimit req))))))"

section \<open>The index byte format\<close>

declare chunks_loop.simps [simp del] bin_records_loop.simps [simp del]
  references_loop.simps [simp del]

text \<open>The little-endian bytes of a word, \<open>n\<close> of them.\<close>

fun le_bytes :: "nat \<Rightarrow> 'a::len word \<Rightarrow> byte list" where
  "le_bytes 0 w = []"
| "le_bytes (Suc n) w = ucast w # le_bytes n (drop_bit 8 w)"

text \<open>
  An index as a value: per reference its bins, per bin its id, its offset and its chunk
  records; and the bytes that encode it, every count written as the length of what
  follows it. A well-formed index has a non-negative depth, and lengths that fit the
  signed 32-bit count fields.
\<close>

record Bin =
  bin_id :: "32 word"
  bin_offset :: "64 word"
  bin_chunks :: "Chunk list"

record csi_index =
  idx_minShift :: "32 word"
  idx_depth :: "32 word"
  idx_aux :: "byte list"
  idx_refs :: "Bin list list"

definition encode_Chunk :: "Chunk \<Rightarrow> byte list" where
  "encode_Chunk c = le_bytes 8 (Chunk.Start c) @ le_bytes 8 (Chunk.End c)"

definition encode_Bin :: "Bin \<Rightarrow> byte list" where
  "encode_Bin b =
     le_bytes 4 (bin_id b) @ le_bytes 8 (bin_offset b) @
     le_bytes 4 (of_nat (length (bin_chunks b)) :: 32 word) @
     concat (map encode_Chunk (bin_chunks b))"

definition encode_reference :: "Bin list \<Rightarrow> byte list" where
  "encode_reference bs =
     le_bytes 4 (of_nat (length bs) :: 32 word) @ concat (map encode_Bin bs)"

definition encode_Index :: "csi_index \<Rightarrow> byte list" where
  "encode_Index idx =
     csiMagic @ le_bytes 4 (idx_minShift idx) @ le_bytes 4 (idx_depth idx) @
     le_bytes 4 (of_nat (length (idx_aux idx)) :: 32 word) @ idx_aux idx @
     le_bytes 4 (of_nat (length (idx_refs idx)) :: 32 word) @
     concat (map encode_reference (idx_refs idx))"

definition well_formed :: "csi_index \<Rightarrow> bool" where
  "well_formed idx \<longleftrightarrow>
     0 \<le>s idx_depth idx \<and> length (idx_aux idx) < 2 ^ 31 \<and> length (idx_refs idx) < 2 ^ 31 \<and>
     (\<forall>bs \<in> set (idx_refs idx).
        length bs < 2 ^ 31 \<and> (\<forall>b \<in> set bs. length (bin_chunks b) < 2 ^ 31))"

text \<open>
  What the decoder is to emit, in the order of the file: for the bin \<open>b\<close> of the reference
  numbered \<open>reference\<close>, nothing when \<open>b\<close> is the metadata bin or fails the bin filter,
  else the chunks of \<open>b\<close> that do not end below its offset. \<open>emitted_from\<close> numbers the
  references from \<open>k\<close> on.
\<close>

definition bin_emitted :: "Region \<Rightarrow> 16 word list \<Rightarrow> 32 word \<Rightarrow> Bin \<Rightarrow> Chunk list" where
  "bin_emitted rg bins reference b =
     (if bin_id b \<noteq> MetadataBeanID \<and> RegionContainsBin rg reference (bin_id b) bins
      then filter (\<lambda>c. bin_offset b \<le> Chunk.End c) (bin_chunks b) else [])"

definition emitted_from :: "Region \<Rightarrow> 16 word list \<Rightarrow> nat \<Rightarrow> Bin list list \<Rightarrow> Chunk list" where
  "emitted_from rg bins k refs =
     concat (map (\<lambda>(i, bs). concat (map (bin_emitted rg bins (of_nat i)) bs)) (enumerate k refs))"

text \<open>
  The chunk records of the bins other than the metadata bin, whatever the region, and a
  header chunk with its end lowered to the least start among a list of chunks.
\<close>

definition data_chunks :: "Bin list \<Rightarrow> Chunk list" where
  "data_chunks bs = concat (map bin_chunks (filter (\<lambda>b. bin_id b \<noteq> MetadataBeanID) bs))"

definition narrow :: "Chunk \<Rightarrow> Chunk list \<Rightarrow> Chunk" where
  "narrow header cs = header\<lparr>Chunk.End := foldl (\<lambda>h c. min h (Chunk.Start c)) (Chunk.End header) cs\<rparr>"


section \<open>Coordinate binning as the specification words it\<close>

text \<open>
  The cumulative base of level \<open>l\<close>, incremented by \<open>8 ^ l\<close> per level, and the
  inclusive range of bin ids of one level for the shift
  \<open>minShift + (depth - l) * 3\<close>, on unbounded naturals. \<open>binsForRange_spec\<close> clamps
  as the specification says and lists the levels \<open>0, \<dots>, depth\<close> in order.
\<close>

fun level_base :: "nat \<Rightarrow> nat" where
  "level_base 0 = 0"
| "level_base (Suc l) = level_base l + 8 ^ l"

definition level_bins :: "nat \<Rightarrow> nat \<Rightarrow> nat \<Rightarrow> nat \<Rightarrow> nat \<Rightarrow> nat list" where
  "level_bins start last1 minShift depth l =
     [level_base l + start div 2 ^ (minShift + (depth - l) * 3)
        ..< Suc (level_base l + last1 div 2 ^ (minShift + (depth - l) * 3))]"

definition binsForRange_spec :: "nat \<Rightarrow> nat \<Rightarrow> nat \<Rightarrow> nat \<Rightarrow> nat list" where
  "binsForRange_spec start end0 minShift depth =
     (let end1 = (if end0 = 0 \<or> 2 ^ 29 < end0 then 2 ^ 29 else end0)
      in if end1 \<le> start \<or> 2 ^ 29 < start then []
         else concat (map (level_bins start (end1 - 1) minShift depth) [0..<Suc depth]))"

text \<open>
  The same rows computed with the loop's own 64-bit arithmetic, \<open>n\<close> levels from level
  \<open>l\<close> on with the shift \<open>s\<close>: the value of the loop of \<^verbatim>\<open>BinsForRange\<close> when it exits.
\<close>

fun levels_n :: "32 word \<Rightarrow> 32 word \<Rightarrow> nat \<Rightarrow> nat \<Rightarrow> 64 word \<Rightarrow> 16 word list" where
  "levels_n start end1 0 l s = []"
| "levels_n start end1 (Suc n) l s =
     map of_nat [unat (of_nat (level_base l) + drop_bit (unat s) (ucast start) :: 64 word)
                   ..< Suc (unat (of_nat (level_base l) + drop_bit (unat s) (ucast end1) :: 64 word))]
       @ levels_n start end1 n (Suc l) (s - 3)"


section \<open>The bin filter\<close>

lemma bins_range_iff: "bins_range bins binID \<longleftrightarrow> (\<exists>b \<in> set bins. ucast b = binID)"
  by (induction bins) auto

text \<open>
  Claim C5. \<^verbatim>\<open>RegionContainsBin\<close> is false when the region names a reference
  (\<open>ReferenceID \<ge> 0\<close>) other than the bin's; otherwise it is true for a region with
  start and end both 0, whatever the candidate list; otherwise it is true exactly
  when the bin id occurs in the candidate list.
\<close>

theorem RegionContainsBin_spec:
  "(0 \<le>s ReferenceID rg \<and> referenceID \<noteq> ReferenceID rg
      \<longrightarrow> \<not> RegionContainsBin rg referenceID binID bins) \<and>
   (\<not> (0 \<le>s ReferenceID rg \<and> referenceID \<noteq> ReferenceID rg)
      \<and> Region.Start rg = 0 \<and> Region.End rg = 0
      \<longrightarrow> RegionContainsBin rg referenceID binID bins) \<and>
   (\<not> (0 \<le>s ReferenceID rg \<and> referenceID \<noteq> ReferenceID rg)
      \<and> \<not> (Region.Start rg = 0 \<and> Region.End rg = 0)
      \<longrightarrow> (RegionContainsBin rg referenceID binID bins
             \<longleftrightarrow> (\<exists>b \<in> set bins. ucast b = binID)))"
  by (simp add: RegionContainsBin_def bins_range_iff)

theorem RegionContainsBin_spec_witness:
  "\<not> RegionContainsBin \<lparr>ReferenceID = 0, Region.Start = 0, Region.End = 0\<rparr> 1 4681 [4681] \<and>
   RegionContainsBin \<lparr>ReferenceID = 0, Region.Start = 0, Region.End = 0\<rparr> 0 4681 [] \<and>
   RegionContainsBin \<lparr>ReferenceID = - 1, Region.Start = 0, Region.End = 0\<rparr> 3 4681 [] \<and>
   RegionContainsBin \<lparr>ReferenceID = 0, Region.Start = 5, Region.End = 9\<rparr> 0 4681 [9, 4681] \<and>
   \<not> RegionContainsBin \<lparr>ReferenceID = 0, Region.Start = 5, Region.End = 9\<rparr> 0 4682 [9, 4681]"
  using RegionContainsBin_spec
          [of "\<lparr>ReferenceID = 0, Region.Start = 0, Region.End = 0\<rparr>" 1 4681 "[4681]"]
        RegionContainsBin_spec
          [of "\<lparr>ReferenceID = 0, Region.Start = 0, Region.End = 0\<rparr>" 0 4681 "[]"]
        RegionContainsBin_spec
          [of "\<lparr>ReferenceID = - 1, Region.Start = 0, Region.End = 0\<rparr>" 3 4681 "[]"]
        RegionContainsBin_spec
          [of "\<lparr>ReferenceID = 0, Region.Start = 5, Region.End = 9\<rparr>" 0 4681 "[9, 4681]"]
        RegionContainsBin_spec
          [of "\<lparr>ReferenceID = 0, Region.Start = 5, Region.End = 9\<rparr>" 0 4682 "[9, 4681]"]
  by simp

section \<open>Coordinate binning\<close>

subsection \<open>The inner loop\<close>

lemma bins_loop_exit: "\<not> b \<le> e \<Longrightarrow> bins_loop b e bins = Some bins"
  by (subst bins_loop.simps) simp

lemma bins_loop_step: "b \<le> e \<Longrightarrow> bins_loop b e bins = bins_loop (b + 1) e (bins @ [ucast b])"
  by (subst bins_loop.simps) simp

lemma bins_loop_eq:
  "unat e < 2 ^ 64 - 1 \<Longrightarrow>
   bins_loop b e bins = Some (bins @ map of_nat [unat b ..< Suc (unat e)])"
proof (induction "Suc (unat e) - unat b" arbitrary: b bins)
  case 0
  then have "unat e < unat b" by linarith
  then have "\<not> b \<le> e" by (simp add: word_le_nat_alt)
  then have "bins_loop b e bins = Some bins" by (rule bins_loop_exit)
  moreover have "[unat b ..< Suc (unat e)] = []" using \<open>unat e < unat b\<close> by simp
  ultimately show ?case by simp
next
  case (Suc n)
  then have ble: "unat b \<le> unat e" by linarith
  then have le: "b \<le> e" by (simp add: word_le_nat_alt)
  have "unat b + 1 < 2 ^ 64" using ble Suc.prems by linarith
  then have succ: "unat (b + 1) = Suc (unat b)"
    by (simp add: unat_word_ariths)
  have "n = Suc (unat e) - unat (b + 1)" using Suc.hyps(2) succ by linarith
  from Suc.hyps(1) [OF this Suc.prems]
  have "bins_loop (b + 1) e (bins @ [ucast b]) =
          Some ((bins @ [ucast b]) @ map of_nat [Suc (unat b) ..< Suc (unat e)])"
    by (simp only: succ)
  moreover have "[unat b ..< Suc (unat e)] = unat b # [Suc (unat b) ..< Suc (unat e)]"
    using ble by (simp add: upt_conv_Cons del: upt_Suc)
  moreover have "(ucast b :: 16 word) = of_nat (unat b)" by simp
  ultimately show ?case
    by (simp only: bins_loop_step [OF le] list.map append_assoc append_Cons append_Nil)
qed

lemma level_base_closed: "7 * level_base l + 1 = 8 ^ l"
  by (induction l) auto

lemma level_base_mod: "22 \<le> l \<Longrightarrow> level_base l mod 2 ^ 64 = level_base 22"
proof (induction l)
  case 0
  then show ?case by simp
next
  case (Suc l)
  have small: "level_base 22 < 2 ^ 64"
    using level_base_closed [of 22] by simp
  show ?case
  proof (cases "l = 21")
    case True
    then show ?thesis using small by simp
  next
    case False
    with Suc.prems have l: "22 \<le> l" by simp
    then obtain k where k: "l = 22 + k" using le_Suc_ex by blast
    have "(8 :: nat) ^ l = 2 ^ 64 * (4 * 8 ^ k)"
      unfolding k by (simp add: power_add)
    then have "(8 :: nat) ^ l mod 2 ^ 64 = 0" by simp
    then have "level_base (Suc l) mod 2 ^ 64 = level_base l mod 2 ^ 64"
      by (simp add: mod_add_right_eq [symmetric, of "level_base l" "8 ^ l"])
    then show ?thesis using Suc.IH l by simp
  qed
qed

subsection \<open>Word arithmetic of the level loop\<close>

lemma unat_ucast_up: "unat (ucast (w :: 32 word) :: 64 word) = unat w"
proof -
  have "unat w < 2 ^ 32" using unsigned_less [of w] by simp
  then have "unat w < 2 ^ 64" by simp
  then show ?thesis by (simp add: unsigned_ucast_eq take_bit_nat_eq_self)
qed

lemma nonneg_sint: "0 \<le>s (d :: 32 word) \<Longrightarrow> sint d = int (unat d)"
proof -
  assume "0 \<le>s d"
  then have "0 \<le> sint d" by (simp add: word_sle_eq)
  moreover have "sint d < 2 ^ 32" using sint_lt [of d] by simp
  ultimately have "take_bit 32 (sint d) = sint d" by (simp add: take_bit_int_eq_self)
  then have "uint d = sint d" using uint_sint [of d] by simp
  then show ?thesis by simp
qed

lemma nonneg_unat: "0 \<le>s (d :: 32 word) \<Longrightarrow> unat d < 2 ^ 31"
proof -
  assume "0 \<le>s d"
  then have "sint d = int (unat d)" by (rule nonneg_sint)
  moreover have "sint d < 2 ^ 31" using sint_lt [of d] by simp
  ultimately have "int (unat d) < int (2 ^ 31)" by simp
  then show ?thesis by (simp only: of_nat_less_iff)
qed

lemma nonneg_scast: "0 \<le>s (d :: 32 word) \<Longrightarrow> (scast d :: 64 word) = of_nat (unat d)"
  using nonneg_sint [of d] by (simp add: scast_eq)

lemma of_nat_le_depth:
  assumes "0 \<le>s (d :: 32 word)" and "L \<le> Suc (unat d)"
  shows "(of_nat L :: 64 word) \<le> scast d \<longleftrightarrow> L \<le> unat d"
proof -
  have "unat d < 2 ^ 31" using assms(1) by (rule nonneg_unat)
  then have "unat d < 2 ^ 64" and "L < 2 ^ 64" using assms(2) by simp_all
  then have a: "unat (of_nat L :: 64 word) = L" and "unat d mod 2 ^ LENGTH(64) = unat d"
    by (simp_all add: unat_of_nat)
  then have b: "unat (scast d :: 64 word) = unat d"
    by (simp only: nonneg_scast [OF assms(1)] unat_of_nat)
  show ?thesis by (simp only: word_le_nat_alt a b)
qed

lemma unat_times3:
  assumes "L < 2 ^ 32"
  shows "unat (of_nat L * 3 :: 64 word) = 3 * L"
proof -
  have "(of_nat L * 3 :: 64 word) = of_nat (3 * L)" by simp
  moreover have "3 * L < 2 ^ 64" using assms by simp
  ultimately show ?thesis by (simp add: unat_of_nat del: of_nat_mult)
qed

lemma base_step:
  assumes "L < 2 ^ 32"
  shows "(of_nat (level_base L) + push_bit (unat (of_nat L * 3 :: 64 word)) 1 :: 64 word) =
         of_nat (level_base (Suc L))"
  by (simp add: unat_times3 [OF assms] power_mult)

lemma level_base_mono: "L \<le> M \<Longrightarrow> level_base L \<le> level_base M"
  by (induction M) (auto simp: le_Suc_eq)

lemma unat_base_le: "unat (of_nat (level_base L) :: 64 word) \<le> level_base 22"
proof (cases "22 \<le> L")
  case True
  then show ?thesis using level_base_mod [of L] by (simp add: unat_of_nat)
next
  case False
  then have "level_base L \<le> level_base 22" by (intro level_base_mono) simp
  moreover have "level_base L mod 2 ^ 64 \<le> level_base L" by simp
  ultimately show ?thesis by (simp add: unat_of_nat del: mod_less_eq_dividend)
qed

lemma unat_shifted_lt: "unat (drop_bit n (ucast (w :: 32 word) :: 64 word)) < 2 ^ 32"
proof -
  have "unat (drop_bit n (ucast w :: 64 word)) = unat w div 2 ^ n"
    by (simp only: unat_drop_bit_eq unat_ucast_up) (simp only: drop_bit_eq_div)
  moreover have "unat w < 2 ^ 32" using unsigned_less [of w] by simp
  moreover have "unat w div 2 ^ n \<le> unat w" by simp
  ultimately show ?thesis by linarith
qed

lemma unat_level_bin:
  "unat (of_nat (level_base L) + drop_bit n (ucast (w :: 32 word)) :: 64 word) =
     unat (of_nat (level_base L) :: 64 word) + unat w div 2 ^ n \<and>
   unat (of_nat (level_base L) + drop_bit n (ucast (w :: 32 word)) :: 64 word) < 2 ^ 64 - 1"
proof -
  let ?t = "of_nat (level_base L) :: 64 word"
  let ?x = "drop_bit n (ucast w) :: 64 word"
  have x: "unat ?x = unat w div 2 ^ n"
    by (simp only: unat_drop_bit_eq unat_ucast_up) (simp only: drop_bit_eq_div)
  have "7 * level_base 22 + 1 = 8 ^ 22" by (rule level_base_closed)
  then have "level_base 22 + 2 ^ 32 < 2 ^ 64 - 1" by simp
  then have sum: "unat ?t + unat ?x < 2 ^ 64 - 1"
    using unat_base_le [of L] unat_shifted_lt [of n w] by linarith
  then have "unat (?t + ?x) = unat ?t + unat ?x"
    by (simp add: unat_word_ariths)
  then show ?thesis using sum x by simp
qed

subsection \<open>The level loop\<close>

lemma levels_loop_exit:
  "\<not> l \<le> scast depth \<Longrightarrow> levels_loop start e1 depth l t s bins = Some bins"
  by (subst levels_loop.simps) simp

lemma levels_loop_step:
  "l \<le> scast depth \<Longrightarrow>
   levels_loop start e1 depth l t s bins =
     bins_loop (t + drop_bit (unat s) (ucast start)) (t + drop_bit (unat s) (ucast e1)) bins
       \<bind> (\<lambda>bins'. levels_loop start e1 depth (l + 1)
                       (t + push_bit (unat (l * 3)) 1) (s - 3) bins')"
  by (subst levels_loop.simps) simp

lemma levels_loop_eq:
  assumes d: "0 \<le>s depth"
  shows "L \<le> Suc (unat depth) \<Longrightarrow>
         levels_loop start e1 depth (of_nat L) (of_nat (level_base L)) s bins =
           Some (bins @ levels_n start e1 (Suc (unat depth) - L) L s)"
proof (induction "Suc (unat depth) - L" arbitrary: L s bins)
  case 0
  then have "L = Suc (unat depth)" by linarith
  then have "\<not> (of_nat L :: 64 word) \<le> scast depth"
    using of_nat_le_depth [OF d, of L] by simp
  then have "levels_loop start e1 depth (of_nat L) (of_nat (level_base L)) s bins = Some bins"
    by (rule levels_loop_exit)
  then show ?case using 0 by simp
next
  case (Suc n)
  then have L: "L \<le> unat depth" by linarith
  then have cond: "(of_nat L :: 64 word) \<le> scast depth"
    using of_nat_le_depth [OF d, of L] by simp
  have small: "L < 2 ^ 32" using L nonneg_unat [OF d] by simp
  let ?t = "of_nat (level_base L) :: 64 word"
  let ?b = "?t + drop_bit (unat s) (ucast start)"
  let ?e = "?t + drop_bit (unat s) (ucast e1)"
  let ?row = "map of_nat [unat ?b ..< Suc (unat ?e)] :: 16 word list"
  have inner: "bins_loop ?b ?e bins = Some (bins @ ?row)"
    using unat_level_bin [of L "unat s" e1] by (intro bins_loop_eq) simp
  have n: "n = Suc (unat depth) - Suc L" using Suc.hyps(2) by linarith
  have "levels_loop start e1 depth (of_nat (Suc L)) (of_nat (level_base (Suc L))) (s - 3)
          (bins @ ?row) =
        Some ((bins @ ?row) @ levels_n start e1 (Suc (unat depth) - Suc L) (Suc L) (s - 3))"
    using L by (intro Suc.hyps(1) [OF n]) simp
  moreover have "(of_nat L + 1 :: 64 word) = of_nat (Suc L)" by simp
  moreover note base_step [OF small]
  moreover have "Suc (unat depth) - L = Suc (Suc (unat depth) - Suc L)" using L by linarith
  ultimately show ?case
    by (simp only: levels_loop_step [OF cond] inner bind.bind_lunit levels_n.simps append_assoc)
qed

lemma BinsForRange_levels:
  assumes "0 \<le>s depth"
  shows "BinsForRange start end0 minShift depth =
     (let end1 = (if end0 = 0 \<or> maximumReadLength < end0 then maximumReadLength else end0)
      in if end1 \<le> start \<or> maximumReadLength < start then Some []
         else Some (levels_n start (end1 - 1) (Suc (unat depth)) 0 (scast (minShift + depth * 3))))"
  using levels_loop_eq [OF assms, of 0]
  by (simp add: BinsForRange_def Let_def)

subsection \<open>The loop's rows are the specification's rows, cut to 16 bits\<close>

lemma map_of_nat_shift:
  assumes "(of_nat T :: 16 word) = of_nat B"
  shows "map of_nat [T + x ..< Suc (T + y)] = (map of_nat [B + x ..< Suc (B + y)] :: 16 word list)"
proof (rule nth_equalityI)
  show "length (map of_nat [T + x ..< Suc (T + y)] :: 16 word list) =
        length (map of_nat [B + x ..< Suc (B + y)] :: 16 word list)"
    by simp
next
  fix i
  assume "i < length (map of_nat [T + x ..< Suc (T + y)] :: 16 word list)"
  then have i: "i < Suc y - x" by (simp del: upt_Suc)
  then have "T + x + i < Suc (T + y)" and "B + x + i < Suc (B + y)" by linarith+
  then have "(map of_nat [T + x ..< Suc (T + y)] :: 16 word list) ! i = of_nat T + of_nat (x + i)"
    and "(map of_nat [B + x ..< Suc (B + y)] :: 16 word list) ! i = of_nat B + of_nat (x + i)"
    using i by (simp_all add: add.assoc del: upt_Suc)
  then show "(map of_nat [T + x ..< Suc (T + y)] :: 16 word list) ! i =
             map of_nat [B + x ..< Suc (B + y)] ! i"
    using assms by simp
qed

lemma of_nat_unat_base:
  "(of_nat (unat (of_nat B :: 64 word)) :: 16 word) = of_nat B"
proof -
  have "(2 :: nat) ^ 16 dvd 2 ^ 64" by (intro le_imp_power_dvd) simp
  then have "B mod 2 ^ 64 mod 2 ^ 16 = B mod 2 ^ 16" by (rule mod_mod_cancel)
  then have "take_bit 16 (B mod 2 ^ 64) = take_bit 16 B" by (simp add: take_bit_eq_mod)
  then have "(of_nat (B mod 2 ^ 64) :: 16 word) = of_nat B"
    by (simp add: word_of_nat_eq_iff)
  then show ?thesis by (simp add: unat_of_nat)
qed

lemma level_row:
  fixes start end1 :: "32 word"
  shows
  "(map of_nat [unat (of_nat (level_base l) + drop_bit n (ucast start) :: 64 word)
                  ..< Suc (unat (of_nat (level_base l) + drop_bit n (ucast end1) :: 64 word))]
      :: 16 word list) =
   map of_nat [level_base l + unat start div 2 ^ n ..< Suc (level_base l + unat end1 div 2 ^ n)]"
proof -
  have b: "unat (of_nat (level_base l) + drop_bit n (ucast start) :: 64 word) =
      unat (of_nat (level_base l) :: 64 word) + unat start div 2 ^ n"
    by (rule unat_level_bin [THEN conjunct1])
  have e: "unat (of_nat (level_base l) + drop_bit n (ucast end1) :: 64 word) =
      unat (of_nat (level_base l) :: 64 word) + unat end1 div 2 ^ n"
    by (rule unat_level_bin [THEN conjunct1])
  show ?thesis unfolding b e by (rule map_of_nat_shift [OF of_nat_unat_base])
qed

lemma levels_n_spec:
  "l + n = Suc depth \<Longrightarrow> (0 < n \<longrightarrow> unat s = minShift + (depth - l) * 3) \<Longrightarrow>
   levels_n start end1 n l s =
     map of_nat (concat (map (level_bins (unat start) (unat end1) minShift depth) [l ..< l + n]))"
proof (induction n arbitrary: l s)
  case 0
  then show ?case by simp
next
  case (Suc n)
  then have s: "unat s = minShift + (depth - l) * 3" by simp
  have next_s: "0 < n \<longrightarrow> unat (s - 3) = minShift + (depth - Suc l) * 3"
  proof
    assume "0 < n"
    with Suc.prems(1) have "Suc l \<le> depth" by linarith
    then have eq: "minShift + (depth - l) * 3 = minShift + (depth - Suc l) * 3 + 3" by linarith
    then have "3 \<le> unat s" using s by linarith
    then have "(3 :: 64 word) \<le> s" by (simp add: word_le_nat_alt)
    then have "unat (s - 3) = unat s - unat (3 :: 64 word)" by (rule unat_sub)
    then show "unat (s - 3) = minShift + (depth - Suc l) * 3" using s eq by simp
  qed
  have "levels_n start end1 n (Suc l) (s - 3) =
      map of_nat (concat (map (level_bins (unat start) (unat end1) minShift depth)
                            [Suc l ..< Suc l + n]))"
    using Suc.prems(1) next_s by (intro Suc.IH) simp_all
  moreover have "[l ..< l + Suc n] = l # [Suc l ..< Suc l + n]"
    by (simp add: upt_conv_Cons del: upt_Suc)
  ultimately show ?case
    by (simp only: levels_n.simps level_row s list.map concat.simps map_append)
       (simp add: level_bins_def)
qed

lemma small_nonneg: "unat (x :: 32 word) < 2 ^ 31 \<Longrightarrow> 0 \<le>s x"
proof -
  assume "unat x < 2 ^ 31"
  then have "int (unat x) < int (2 ^ 31)" by (simp only: of_nat_less_iff)
  then have "uint x < 2 ^ 31" by simp
  moreover have "- (2 ^ 31) \<le> (0 :: int)" by simp
  then have "- (2 ^ 31) \<le> uint x" using uint_ge_0 [of x] by (rule order_trans)
  ultimately have "signed_take_bit 31 (uint x) = uint x"
    by (intro signed_take_bit_int_eq_self) auto
  then have "sint x = uint x" using sint_uint [of x] by simp
  then show ?thesis by (simp add: word_sle_eq)
qed

lemma unat_shift0:
  assumes ms: "0 \<le>s (minShift :: 32 word)" and d: "0 \<le>s (depth :: 32 word)"
    and fit: "sint minShift + 3 * sint depth < 2 ^ 31"
  shows "unat (scast (minShift + depth * 3) :: 64 word) = unat minShift + unat depth * 3"
proof -
  have "int (unat minShift) + 3 * int (unat depth) < 2 ^ 31"
    using fit nonneg_sint [OF ms] nonneg_sint [OF d] by simp
  then have "int (unat minShift + unat depth * 3) < int (2 ^ 31)" by simp
  then have lt: "unat minShift + unat depth * 3 < 2 ^ 31" by (simp only: of_nat_less_iff)
  then have "unat depth * 3 < 2 ^ 32" and "unat minShift + unat depth * 3 < 2 ^ 32" by simp_all
  then have u: "unat (minShift + depth * 3) = unat minShift + unat depth * 3"
    by (simp add: unat_word_ariths)
  then have "0 \<le>s minShift + depth * 3" using lt by (intro small_nonneg) simp
  then have "(scast (minShift + depth * 3) :: 64 word) = of_nat (unat (minShift + depth * 3))"
    by (rule nonneg_scast)
  moreover have "unat minShift + unat depth * 3 < 2 ^ 64" using lt by simp
  ultimately show ?thesis by (simp only: u unat_of_nat) simp
qed

lemma unat_maximumReadLength: "unat maximumReadLength = 2 ^ 29"
  by (simp add: maximumReadLength_def)

lemma BinsForRange_eq_spec:
  assumes ms: "0 \<le>s minShift" and d: "0 \<le>s depth"
    and fit: "sint minShift + 3 * sint depth < 2 ^ 31"
  shows "BinsForRange start end0 minShift depth =
           Some (map of_nat (binsForRange_spec (unat start) (unat end0)
                               (unat minShift) (unat depth)))"
proof -
  define end1 where
    "end1 = (if end0 = 0 \<or> maximumReadLength < end0 then maximumReadLength else end0)"
  define n1 where
    "n1 = (if unat end0 = 0 \<or> 2 ^ 29 < unat end0 then 2 ^ 29 else unat end0)"
  have e1: "unat end1 = n1"
    by (simp add: end1_def n1_def unat_maximumReadLength word_less_nat_alt unat_eq_0)
  have pos: "0 < n1" by (simp add: n1_def)
  then have "end1 \<noteq> 0" using e1 by (auto simp: unat_eq_0)
  then have last1: "unat (end1 - 1) = n1 - 1" using e1 by (simp add: unat_minus_one)
  have cond: "(end1 \<le> start \<or> maximumReadLength < start) \<longleftrightarrow>
              (n1 \<le> unat start \<or> 2 ^ 29 < unat start)"
    by (simp add: word_le_nat_alt word_less_nat_alt e1 unat_maximumReadLength)
  have "levels_n start (end1 - 1) (Suc (unat depth)) 0 (scast (minShift + depth * 3)) =
        map of_nat (concat (map (level_bins (unat start) (unat (end1 - 1)) (unat minShift)
                                   (unat depth)) [0 ..< 0 + Suc (unat depth)]))"
    using unat_shift0 [OF ms d fit] by (intro levels_n_spec) simp_all
  then have run: "BinsForRange start end0 minShift depth =
      (if n1 \<le> unat start \<or> 2 ^ 29 < unat start then Some []
       else Some (map of_nat (concat (map (level_bins (unat start) (n1 - 1) (unat minShift)
                                   (unat depth)) [0 ..< Suc (unat depth)]))))"
    unfolding BinsForRange_levels [OF d] end1_def [symmetric] Let_def cond last1 by simp
  have spec: "binsForRange_spec (unat start) (unat end0) (unat minShift) (unat depth) =
      (if n1 \<le> unat start \<or> 2 ^ 29 < unat start then []
       else concat (map (level_bins (unat start) (n1 - 1) (unat minShift) (unat depth))
                      [0 ..< Suc (unat depth)]))"
    unfolding binsForRange_spec_def Let_def n1_def by (rule refl)
  show ?thesis
    unfolding run spec
    by (cases "n1 \<le> unat start \<or> 2 ^ 29 < unat start")
       (simp_all only: if_True if_False list.map)
qed

lemma level_base_eq: "level_base l = (8 ^ l - 1) div 7"
  using level_base_closed [of l] by linarith

lemma upt_numeral_Cons: "m < n \<Longrightarrow> [m ..< n] = m # [Suc m ..< n]"
  by (rule upt_conv_Cons)



lemma spec_dup:
  "binsForRange_spec 0 9 0 (Suc 0) = [0, 1, 1, 2, 3, 4, 5, 6, 7, 8, 9]"
  by (simp add: binsForRange_spec_def level_bins_def level_base_eq upt_numeral_Cons del: upt_Suc)






subsection \<open>Bin ids without repetition\<close>

lemma level_bins_bounds:
  assumes "last1 < 2 ^ (minShift + depth * 3)" and "l \<le> depth"
    and "x \<in> set (level_bins start last1 minShift depth l)"
  shows "level_base l \<le> x \<and> x < level_base (Suc l)"
proof -
  have "minShift + depth * 3 = (minShift + (depth - l) * 3) + 3 * l"
    using assms(2) by (simp add: algebra_simps)
  then have "(2 :: nat) ^ (minShift + depth * 3) = 8 ^ l * 2 ^ (minShift + (depth - l) * 3)"
    by (simp add: power_add power_mult)
  then have "last1 < 8 ^ l * 2 ^ (minShift + (depth - l) * 3)" using assms(1) by simp
  then have "last1 div 2 ^ (minShift + (depth - l) * 3) < 8 ^ l"
    by (simp add: less_mult_imp_div_less)
  then show ?thesis using assms(3) by (auto simp: level_bins_def simp del: upt_Suc)
qed

lemma levels_sorted:
  assumes "last1 < 2 ^ (minShift + depth * 3)"
  shows "l + n \<le> Suc depth \<Longrightarrow>
         sorted_wrt (<) (concat (map (level_bins start last1 minShift depth) [l ..< l + n])) \<and>
         (\<forall>x \<in> set (concat (map (level_bins start last1 minShift depth) [l ..< l + n])).
            level_base l \<le> x \<and> x < level_base (l + n))"
proof (induction n arbitrary: l)
  case 0
  then show ?case by simp
next
  case (Suc n)
  let ?f = "level_bins start last1 minShift depth"
  have l: "l \<le> depth" using Suc.prems by simp
  have row: "\<forall>x \<in> set (?f l). level_base l \<le> x \<and> x < level_base (Suc l)"
    using level_bins_bounds [OF assms l] by blast
  have rest: "sorted_wrt (<) (concat (map ?f [Suc l ..< Suc l + n])) \<and>
      (\<forall>x \<in> set (concat (map ?f [Suc l ..< Suc l + n])).
         level_base (Suc l) \<le> x \<and> x < level_base (Suc l + n))"
    using Suc.prems by (intro Suc.IH) simp
  have split: "[l ..< l + Suc n] = l # [Suc l ..< Suc l + n]"
    by (simp add: upt_conv_Cons del: upt_Suc)
  have sorted_row: "sorted_wrt (<) (?f l)"
    by (simp add: level_bins_def del: upt_Suc)
  have mono: "level_base (Suc l) \<le> level_base (Suc l + n)"
    by (rule level_base_mono) simp
  show ?case
    unfolding split
    using row rest sorted_row mono
    by (auto simp: sorted_wrt_append simp del: upt_Suc level_base.simps) fastforce+
qed

lemma distinct_map_of_nat_16:
  assumes "sorted_wrt (<) xs" and "\<forall>x \<in> set xs. x < 2 ^ 16"
  shows "distinct (map of_nat xs :: 16 word list)"
proof -
  have "distinct xs" using assms(1) by (simp add: strict_sorted_iff)
  moreover have "inj_on (of_nat :: nat \<Rightarrow> 16 word) (set xs)"
  proof (rule inj_onI)
    fix x y
    assume "x \<in> set xs" and "y \<in> set xs" and eq: "(of_nat x :: 16 word) = of_nat y"
    then have "x < 2 ^ 16" and "y < 2 ^ 16" using assms(2) by auto
    then have "take_bit 16 x = x" and "take_bit 16 y = y"
      by (simp_all add: take_bit_nat_eq_self)
    then show "x = y" using eq by (simp add: word_of_nat_eq_iff)
  qed
  ultimately show ?thesis by (simp add: distinct_map)
qed

lemma spec_distinct:
  assumes d5: "depth \<le> 5"
    and cap: "(if end0 = 0 \<or> 2 ^ 29 < end0 then 2 ^ 29 else end0) \<le> 2 ^ (minShift + depth * 3)"
  shows "distinct (map of_nat (binsForRange_spec start end0 minShift depth) :: 16 word list)"
proof -
  define n1 :: nat where "n1 = (if end0 = 0 \<or> 2 ^ 29 < end0 then 2 ^ 29 else end0)"
  have pos: "0 < n1" by (simp add: n1_def)
  have "n1 \<le> 2 ^ (minShift + depth * 3)" using cap by (simp only: n1_def)
  then have last1: "n1 - 1 < 2 ^ (minShift + depth * 3)" using pos by linarith
  let ?xs = "concat (map (level_bins start (n1 - 1) minShift depth) [0 ..< 0 + Suc depth])"
  have srt: "sorted_wrt (<) ?xs \<and> (\<forall>x \<in> set ?xs. level_base 0 \<le> x \<and> x < level_base (0 + Suc depth))"
    by (rule levels_sorted [OF last1]) simp
  have "level_base (Suc depth) \<le> level_base 6" using d5 by (intro level_base_mono) simp
  moreover have "level_base 6 < 2 ^ 16" by (simp add: level_base_eq)
  ultimately have "\<forall>x \<in> set ?xs. x < 2 ^ 16" using srt by fastforce
  then have "distinct (map of_nat ?xs :: 16 word list)"
    using srt by (intro distinct_map_of_nat_16) simp_all
  moreover have "binsForRange_spec start end0 minShift depth =
      (if n1 \<le> start \<or> 2 ^ 29 < start then [] else ?xs)"
    unfolding binsForRange_spec_def Let_def n1_def by simp
  ultimately show ?thesis by (simp del: upt_Suc)
qed


text \<open>
  Claim C8, as amended. When \<^verbatim>\<open>minShift\<close> and \<^verbatim>\<open>depth\<close> are non-negative, \<^verbatim>\<open>depth\<close> is
  at most 5 (every bin id fits 16 bits) and the clamped end lies within the
  \<open>2 ^ (minShift + 3 * depth)\<close> positions the levels address, \<^verbatim>\<open>BinsForRange\<close> returns a
  list without repetition.
\<close>

theorem BinsForRange_distinct:
  assumes ms: "0 \<le>s minShift" and d: "0 \<le>s depth" and d5: "depth \<le>s 5"
    and fit: "sint minShift + 3 * sint depth < 2 ^ 31"
    and cap: "(if unat end0 = 0 \<or> 2 ^ 29 < unat end0 then 2 ^ 29 else unat end0)
                \<le> 2 ^ (unat minShift + unat depth * 3)"
  shows "\<exists>bins. BinsForRange start end0 minShift depth = Some bins \<and> distinct bins"
proof -
  have "sint depth \<le> 5" using d5 by (simp add: word_sle_eq)
  then have "int (unat depth) \<le> int 5" using nonneg_sint [OF d] by simp
  then have "unat depth \<le> 5" by (simp only: of_nat_le_iff)
  then have "distinct (map of_nat (binsForRange_spec (unat start) (unat end0)
                                     (unat minShift) (unat depth)) :: 16 word list)"
    using cap by (rule spec_distinct)
  then show ?thesis using BinsForRange_eq_spec [OF ms d fit] by simp
qed

theorem BinsForRange_distinct_witness:
  "\<exists>bins. BinsForRange 0 100 14 5 = Some bins \<and> distinct bins"
  using BinsForRange_distinct [of 14 5 100 0]
  by (simp add: word_sle_eq)

text \<open>
  The claim as first stated holds for every input. With one level below the root and
  an end beyond the eight positions that level addresses, the root row runs on into
  the id of the first bin of the next row.
\<close>

theorem BinsForRange_duplicate_bin_ids:
  "BinsForRange 0 9 0 1 = Some [0, 1, 1, 2, 3, 4, 5, 6, 7, 8, 9] \<and>
   \<not> distinct [0, 1, 1, 2, 3, 4, 5, 6, 7, 8, 9 :: 16 word]"
proof -
  have "BinsForRange 0 9 0 1 =
      Some (map of_nat (binsForRange_spec (unat (0 :: 32 word)) (unat (9 :: 32 word))
                          (unat (0 :: 32 word)) (unat (1 :: 32 word))))"
    by (rule BinsForRange_eq_spec) (simp_all add: word_sle_eq)
  then show ?thesis by (simp add: spec_dup)
qed

section \<open>The index decoder\<close>

subsection \<open>Reading back what was encoded\<close>

lemma length_le_bytes [simp]: "length (le_bytes n w) = n"
  by (induction n arbitrary: w) auto

lemma le_word_le_bytes: "(le_word (le_bytes n w) :: 'a::len word) = take_bit (8 * n) (w :: 'a word)"
proof (induction n arbitrary: w)
  case 0
  then show ?case by simp
next
  case (Suc n)
  have "(ucast (ucast w :: byte) OR push_bit 8 (take_bit (8 * n) (drop_bit 8 w)) :: 'a word) =
        take_bit (8 * Suc n) w"
    by (rule bit_word_eqI) (auto simp: bit_simps)
  then show ?case by (simp add: Suc.IH)
qed

lemma le_word_32: "le_word (le_bytes 4 (w :: 32 word)) = w"
  by (simp add: le_word_le_bytes take_bit_word_eq_self)

lemma le_word_64: "le_word (le_bytes 8 (w :: 64 word)) = w"
  by (simp add: le_word_le_bytes take_bit_word_eq_self)

lemma read_int32_encoded: "read_int32 (le_bytes 4 w @ rest) = Some (w, rest)"
  by (simp add: read_int32_def le_word_32)

lemma read_Chunk_encoded: "read_Chunk (encode_Chunk c @ rest) = Some (c, rest)"
  by (simp add: read_Chunk_def encode_Chunk_def le_word_64)

lemma read_bin_encoded:
  "read_bin (le_bytes 4 i @ le_bytes 8 off @ le_bytes 4 cnt @ rest) =
     Some (\<lparr>ID = i, Offset = off, Chunks = cnt\<rparr>, rest)"
  by (simp add: read_bin_def le_word_32 le_word_64)


lemma sint_of_nat_small: "i < 2 ^ 31 \<Longrightarrow> sint (of_nat i :: 32 word) = int i"
proof -
  assume i: "i < 2 ^ 31"
  then have "i < 2 ^ 32" by simp
  then have u: "unat (of_nat i :: 32 word) = i" by (simp add: unat_of_nat)
  then have "0 \<le>s (of_nat i :: 32 word)" using i by (intro small_nonneg) simp
  then show ?thesis using u nonneg_sint [of "of_nat i"] by simp
qed

lemma sless_of_nat:
  "i < 2 ^ 31 \<Longrightarrow> n < 2 ^ 31 \<Longrightarrow> ((of_nat i :: 32 word) <s of_nat n) \<longleftrightarrow> i < n"
  by (simp only: word_sless_alt sint_of_nat_small of_nat_less_iff)

lemma narrow_Nil [simp]: "narrow header [] = header"
  by (simp add: narrow_def)

lemma narrow_Cons:
  "narrow (if Chunk.Start c < Chunk.End header then header\<lparr>Chunk.End := Chunk.Start c\<rparr> else header) cs =
   narrow header (c # cs)"
  by (auto simp: narrow_def min_def not_less intro: arg_cong2 [where f = "foldl _"])

lemma narrow_append: "narrow (narrow header cs) ds = narrow header (cs @ ds)"
  by (simp add: narrow_def)

lemma chunks_loop_encoded:
  assumes n: "n < 2 ^ 31" and cnt: "Chunks bin = of_nat n"
  shows "i + length cs = n \<Longrightarrow>
    chunks_loop bin inc (of_nat i) (concat (map encode_Chunk cs) @ rest, header, chunks) =
      Inr (rest, narrow header (if ID bin = MetadataBeanID then [] else cs),
           chunks @ (if ID bin \<noteq> MetadataBeanID \<and> inc
                     then filter (\<lambda>c. Offset bin \<le> Chunk.End c) cs else []))"
proof (induction cs arbitrary: i header chunks)
  case Nil
  then have "\<not> (of_nat i :: 32 word) <s Chunks bin" using n cnt by (simp add: sless_of_nat)
  then show ?case by (subst chunks_loop.simps) simp
next
  case (Cons c cs)
  then have i: "i < n" by simp
  then have go: "(of_nat i :: 32 word) <s Chunks bin" using n cnt by (simp add: sless_of_nat)
  have next_i: "(of_nat i + 1 :: 32 word) = of_nat (Suc i)" by simp
  have rd: "read_Chunk (encode_Chunk c @ concat (map encode_Chunk cs) @ rest) =
              Some (c, concat (map encode_Chunk cs) @ rest)"
    by (rule read_Chunk_encoded)
  have ih: "chunks_loop bin inc (of_nat (Suc i)) (concat (map encode_Chunk cs) @ rest, h, ch) =
      Inr (rest, narrow h (if ID bin = MetadataBeanID then [] else cs),
           ch @ (if ID bin \<noteq> MetadataBeanID \<and> inc
                 then filter (\<lambda>c. Offset bin \<le> Chunk.End c) cs else []))" for h ch
    using Cons.prems by (intro Cons.IH) simp
  show ?case
    by (subst chunks_loop.simps) (simp add: go rd next_i ih narrow_Cons del: of_nat_Suc)
qed

lemma data_chunks_Cons:
  "data_chunks (b # bs) = (if bin_id b = MetadataBeanID then [] else bin_chunks b) @ data_chunks bs"
  by (simp add: data_chunks_def)

lemma data_chunks_append: "data_chunks (as @ bs) = data_chunks as @ data_chunks bs"
  by (simp add: data_chunks_def)

lemma bin_records_loop_encoded:
  assumes n: "n < 2 ^ 31"
  shows "j + length bs = n \<Longrightarrow> \<forall>b \<in> set bs. length (bin_chunks b) < 2 ^ 31 \<Longrightarrow>
    bin_records_loop rg bins reference (of_nat n) (of_nat j)
        (concat (map encode_Bin bs) @ rest, header, chunks) =
      Inr (rest, narrow header (data_chunks bs),
           chunks @ concat (map (bin_emitted rg bins reference) bs))"
proof (induction bs arbitrary: j header chunks)
  case Nil
  then have "\<not> (of_nat j :: 32 word) <s of_nat n" using n by (simp add: sless_of_nat)
  then show ?case by (subst bin_records_loop.simps) (simp add: data_chunks_def)
next
  case (Cons b bs)
  then have "j < n" by simp
  then have go: "(of_nat j :: 32 word) <s of_nat n" using n by (simp add: sless_of_nat)
  have next_j: "(of_nat j + 1 :: 32 word) = of_nat (Suc j)" by simp
  let ?bin = "\<lparr>ID = bin_id b, Offset = bin_offset b,
               Chunks = of_nat (length (bin_chunks b)) :: 32 word\<rparr>"
  let ?after = "concat (map encode_Bin bs) @ rest"
  have rd: "read_bin (encode_Bin b @ ?after) =
      Some (?bin, concat (map encode_Chunk (bin_chunks b)) @ ?after)"
    using read_bin_encoded [of "bin_id b" "bin_offset b" "of_nat (length (bin_chunks b))"
            "concat (map encode_Chunk (bin_chunks b)) @ ?after"]
    by (simp add: encode_Bin_def)
  have len: "length (bin_chunks b) < 2 ^ 31" using Cons.prems(2) by simp
  have inner: "chunks_loop ?bin inc 0 (concat (map encode_Chunk (bin_chunks b)) @ ?after, header, chunks) =
      Inr (?after, narrow header (if bin_id b = MetadataBeanID then [] else bin_chunks b),
           chunks @ (if bin_id b \<noteq> MetadataBeanID \<and> inc
                     then filter (\<lambda>c. bin_offset b \<le> Chunk.End c) (bin_chunks b) else []))" for inc
    using chunks_loop_encoded [OF len, of ?bin 0 "bin_chunks b" inc ?after header chunks]
    by simp
  have ih: "bin_records_loop rg bins reference (of_nat n) (of_nat (Suc j)) (?after, h, ch) =
      Inr (rest, narrow h (data_chunks bs),
           ch @ concat (map (bin_emitted rg bins reference) bs))" for h ch
    using Cons.prems by (intro Cons.IH) simp_all
  show ?case
    by (subst bin_records_loop.simps)
       (simp add: go rd next_j inner ih data_chunks_Cons narrow_append bin_emitted_def
             del: of_nat_Suc)
qed

lemma emitted_from_Cons:
  "emitted_from rg bins k (bs # refs) =
     concat (map (bin_emitted rg bins (of_nat k)) bs) @ emitted_from rg bins (Suc k) refs"
  by (simp add: emitted_from_def)

lemma references_loop_encoded:
  assumes n: "n < 2 ^ 31"
  shows "k + length refs = n \<Longrightarrow>
    \<forall>bs \<in> set refs. length bs < 2 ^ 31 \<and> (\<forall>b \<in> set bs. length (bin_chunks b) < 2 ^ 31) \<Longrightarrow>
    references_loop rg bins (of_nat n) (of_nat k)
        (concat (map encode_reference refs) @ rest, header, chunks) =
      Inr (rest, narrow header (data_chunks (concat refs)),
           chunks @ emitted_from rg bins k refs)"
proof (induction refs arbitrary: k header chunks)
  case Nil
  then have "\<not> (of_nat k :: 32 word) <s of_nat n" using n by (simp add: sless_of_nat)
  then show ?case
    by (subst references_loop.simps) (simp add: data_chunks_def emitted_from_def)
next
  case (Cons bs refs)
  then have "k < n" by simp
  then have go: "(of_nat k :: 32 word) <s of_nat n" using n by (simp add: sless_of_nat)
  have next_k: "(of_nat k + 1 :: 32 word) = of_nat (Suc k)" by simp
  let ?after = "concat (map encode_reference refs) @ rest"
  have rd: "read_int32 (encode_reference bs @ ?after) =
      Some (of_nat (length bs), concat (map encode_Bin bs) @ ?after)"
    using read_int32_encoded [of "of_nat (length bs)" "concat (map encode_Bin bs) @ ?after"]
    by (simp add: encode_reference_def)
  have len: "length bs < 2 ^ 31" and each: "\<forall>b \<in> set bs. length (bin_chunks b) < 2 ^ 31"
    using Cons.prems(2) by simp_all
  have inner: "bin_records_loop rg bins (of_nat k) (of_nat (length bs)) 0
        (concat (map encode_Bin bs) @ ?after, header, chunks) =
      Inr (?after, narrow header (data_chunks bs),
           chunks @ concat (map (bin_emitted rg bins (of_nat k)) bs))"
    using bin_records_loop_encoded [OF len, of 0 bs rg bins "of_nat k" ?after header chunks] each
    by simp
  have ih: "references_loop rg bins (of_nat n) (of_nat (Suc k)) (?after, h, ch) =
      Inr (rest, narrow h (data_chunks (concat refs)), ch @ emitted_from rg bins (Suc k) refs)"
    for h ch
    using Cons.prems by (intro Cons.IH) simp_all
  show ?case
    by (subst references_loop.simps)
       (simp add: go rd next_k inner ih data_chunks_append narrow_append emitted_from_Cons
             del: of_nat_Suc)
qed

lemma CopyN_Discard_encoded:
  "length skipped < 2 ^ 31 \<Longrightarrow>
   CopyN_Discard (skipped @ rest) (sint (of_nat (length skipped) :: 32 word)) = Some rest"
  by (simp add: CopyN_Discard_def sint_of_nat_small Let_def)

lemma ExpectBytes_encoded: "ExpectBytes (want @ rest) want = Inr rest"
  by (simp add: ExpectBytes_def)

lemma Read_encoded:
  assumes wf: "well_formed idx"
    and bins: "BinsForRange (Region.Start rg) (Region.End rg) (idx_minShift idx) (idx_depth idx)
                 = Some bins"
  shows "Read (encode_Index idx @ trailing) rg =
     Some (Inr (narrow \<lparr>Chunk.Start = 0, Chunk.End = LastAddress\<rparr>
                  (data_chunks (concat (idx_refs idx)))
                # emitted_from rg bins 0 (idx_refs idx)))"
proof -
  have aux: "length (idx_aux idx) < 2 ^ 31" and n: "length (idx_refs idx) < 2 ^ 31"
    and each: "\<forall>bs \<in> set (idx_refs idx).
                 length bs < 2 ^ 31 \<and> (\<forall>b \<in> set bs. length (bin_chunks b) < 2 ^ 31)"
    using wf by (simp_all add: well_formed_def)
  have loop: "references_loop rg bins (of_nat (length (idx_refs idx))) 0
        (concat (map encode_reference (idx_refs idx)) @ trailing,
         \<lparr>Chunk.Start = 0, Chunk.End = LastAddress\<rparr>, []) =
      Inr (trailing,
           narrow \<lparr>Chunk.Start = 0, Chunk.End = LastAddress\<rparr> (data_chunks (concat (idx_refs idx))),
           [] @ emitted_from rg bins 0 (idx_refs idx))"
    using references_loop_encoded [OF n, of 0 "idx_refs idx" rg bins trailing _ "[]"] each
    by simp
  show ?thesis
    unfolding Read_def encode_Index_def
    by (simp add: ExpectBytes_encoded read_int32_encoded bins CopyN_Discard_encoded [OF aux] loop)
qed

lemma BinsForRange_returns:
  "0 \<le>s depth \<Longrightarrow> \<exists>bins. BinsForRange start end0 minShift depth = Some bins"
  by (simp add: BinsForRange_levels Let_def)

lemma foldl_min_Min:
  "foldl (\<lambda>h c. min h (f c)) (a :: 'a :: linorder) cs = Min (insert a (f ` set cs))"
proof (induction cs arbitrary: a)
  case Nil
  then show ?case by simp
next
  case (Cons c cs)
  have "Min (insert (min a (f c)) (f ` set cs)) = Min (insert a (insert (f c) (f ` set cs)))"
  proof (cases "set cs = {}")
    case True
    then show ?thesis by (simp add: min.commute)
  next
    case False
    then show ?thesis by (simp add: min.assoc)
  qed
  then show ?case using Cons.IH [of "min a (f c)"] by simp
qed

lemma narrow_Min:
  "narrow \<lparr>Chunk.Start = s, Chunk.End = e\<rparr> cs =
     \<lparr>Chunk.Start = s, Chunk.End = Min (insert e (Chunk.Start ` set cs))\<rparr>"
  by (simp add: narrow_def foldl_min_Min)


text \<open>
  Claim C1. On the bytes of a well-formed index, followed by anything, \<^verbatim>\<open>Read\<close> returns
  a header chunk starting at 0 and after it, in the order of the file, exactly the
  chunks of \<open>emitted_from\<close>: those of the bins that are not the metadata bin, pass
  \<^verbatim>\<open>RegionContainsBin\<close> with the bins \<^verbatim>\<open>BinsForRange\<close> computed, and do not end below
  the offset of their bin.
\<close>

theorem Read_emits_relevant_chunks:
  "well_formed idx \<Longrightarrow>
   \<exists>bins e. BinsForRange (Region.Start rg) (Region.End rg) (idx_minShift idx) (idx_depth idx)
               = Some bins \<and>
            Read (encode_Index idx @ trailing) rg =
              Some (Inr (\<lparr>Chunk.Start = 0, Chunk.End = e\<rparr> # emitted_from rg bins 0 (idx_refs idx)))"
proof -
  assume wf: "well_formed idx"
  then have "0 \<le>s idx_depth idx" by (simp add: well_formed_def)
  then obtain bins where
    bins: "BinsForRange (Region.Start rg) (Region.End rg) (idx_minShift idx) (idx_depth idx)
             = Some bins"
    using BinsForRange_returns by blast
  show ?thesis
    using Read_encoded [OF wf bins, of trailing] bins by (simp add: narrow_Min)
qed


theorem Read_emits_relevant_chunks_witness:
  "\<exists>bins e. BinsForRange 0 0 14 5 = Some bins \<and>
     Read (encode_Index
             \<lparr>idx_minShift = 14, idx_depth = 5, idx_aux = [9, 9],
              idx_refs = [[\<lparr>bin_id = 37450, bin_offset = 0,
                            bin_chunks = [\<lparr>Chunk.Start = 1, Chunk.End = 2\<rparr>]\<rparr>,
                           \<lparr>bin_id = 4681, bin_offset = 7,
                            bin_chunks = [\<lparr>Chunk.Start = 9, Chunk.End = 10\<rparr>,
                                          \<lparr>Chunk.Start = 8, Chunk.End = 6\<rparr>]\<rparr>]]\<rparr> @ [])
          \<lparr>ReferenceID = 0, Region.Start = 0, Region.End = 0\<rparr> =
       Some (Inr [\<lparr>Chunk.Start = 0, Chunk.End = e\<rparr>, \<lparr>Chunk.Start = 9, Chunk.End = 10\<rparr>])"
  using Read_emits_relevant_chunks
          [of "\<lparr>idx_minShift = 14, idx_depth = 5, idx_aux = [9, 9],
              idx_refs = [[\<lparr>bin_id = 37450, bin_offset = 0,
                            bin_chunks = [\<lparr>Chunk.Start = 1, Chunk.End = 2\<rparr>]\<rparr>,
                           \<lparr>bin_id = 4681, bin_offset = 7,
                            bin_chunks = [\<lparr>Chunk.Start = 9, Chunk.End = 10\<rparr>,
                                          \<lparr>Chunk.Start = 8, Chunk.End = 6\<rparr>]\<rparr>]]\<rparr>"
              "\<lparr>ReferenceID = 0, Region.Start = 0, Region.End = 0\<rparr>" "[]"]
  by (simp add: well_formed_def emitted_from_def bin_emitted_def RegionContainsBin_def
        MetadataBeanID_def word_sle_eq)


text \<open>
  Claim C3. The header chunk returned first starts at 0 and ends at the least start among
  the chunk records of all bins other than the metadata bin, of every reference and
  whatever the region, or at \<^verbatim>\<open>LastAddress\<close> when there is none; with no reference at
  all the header chunk, from 0 to \<^verbatim>\<open>LastAddress\<close>, is the whole result.
\<close>

theorem Read_header_chunk:
  "well_formed idx \<Longrightarrow>
   \<exists>rest. Read (encode_Index idx @ trailing) rg =
            Some (Inr (\<lparr>Chunk.Start = 0,
                        Chunk.End = Min (insert LastAddress
                                      (Chunk.Start ` set (data_chunks (concat (idx_refs idx)))))\<rparr>
                       # rest)) \<and>
          (idx_refs idx = [] \<longrightarrow>
             Read (encode_Index idx @ trailing) rg =
               Some (Inr [\<lparr>Chunk.Start = 0, Chunk.End = LastAddress\<rparr>]))"
proof -
  assume wf: "well_formed idx"
  then have "0 \<le>s idx_depth idx" by (simp add: well_formed_def)
  then obtain bins where
    bins: "BinsForRange (Region.Start rg) (Region.End rg) (idx_minShift idx) (idx_depth idx)
             = Some bins"
    using BinsForRange_returns by blast
  show ?thesis
    using Read_encoded [OF wf bins, of trailing]
    by (auto simp: narrow_Min data_chunks_def emitted_from_def)
qed


theorem Read_header_chunk_witness:
  "\<exists>rest.
     Read (encode_Index
             \<lparr>idx_minShift = 14, idx_depth = 5, idx_aux = [9, 9],
              idx_refs = [[\<lparr>bin_id = 37450, bin_offset = 0,
                            bin_chunks = [\<lparr>Chunk.Start = 1, Chunk.End = 2\<rparr>]\<rparr>,
                           \<lparr>bin_id = 4681, bin_offset = 7,
                            bin_chunks = [\<lparr>Chunk.Start = 9, Chunk.End = 10\<rparr>,
                                          \<lparr>Chunk.Start = 8, Chunk.End = 6\<rparr>]\<rparr>]]\<rparr> @ [])
          \<lparr>ReferenceID = 0, Region.Start = 5, Region.End = 9\<rparr> =
       Some (Inr (\<lparr>Chunk.Start = 0, Chunk.End = 8\<rparr> # rest))"
  using Read_header_chunk
          [of "\<lparr>idx_minShift = 14, idx_depth = 5, idx_aux = [9, 9],
              idx_refs = [[\<lparr>bin_id = 37450, bin_offset = 0,
                            bin_chunks = [\<lparr>Chunk.Start = 1, Chunk.End = 2\<rparr>]\<rparr>,
                           \<lparr>bin_id = 4681, bin_offset = 7,
                            bin_chunks = [\<lparr>Chunk.Start = 9, Chunk.End = 10\<rparr>,
                                          \<lparr>Chunk.Start = 8, Chunk.End = 6\<rparr>]\<rparr>]]\<rparr>"
              "[]" "\<lparr>ReferenceID = 0, Region.Start = 5, Region.End = 9\<rparr>"]
  by (simp add: well_formed_def data_chunks_def MetadataBeanID_def LastAddress_def word_sle_eq)


subsection \<open>Counts that are not positive\<close>

lemma Read_no_references:
  fixes minShift depth laux refCount :: "32 word"
  assumes "laux \<le>s 0" and "refCount \<le>s 0"
    and "BinsForRange (Region.Start rg) (Region.End rg) minShift depth = Some bins"
  shows "Read (csiMagic @ le_bytes 4 minShift @ le_bytes 4 depth @ le_bytes 4 laux @
               le_bytes 4 refCount @ rest) rg =
           Some (Inr [\<lparr>Chunk.Start = 0, Chunk.End = LastAddress\<rparr>])"
proof -
  have "sint laux \<le> 0" using assms(1) by (simp add: word_sle_eq)
  then have skip: "CopyN_Discard r (sint laux) = Some r" for r
    by (simp add: CopyN_Discard_def Let_def)
  have "\<not> 0 <s refCount" using assms(2) by (simp add: word_sle_eq word_sless_alt)
  then have loop: "references_loop rg bins refCount 0 (r, h, c) = Inr (r, h, c)" for r h c
    by (subst references_loop.simps) simp
  show ?thesis
    unfolding Read_def
    by (simp add: ExpectBytes_encoded read_int32_encoded assms(3) skip loop)
qed


text \<open>
  Claim C4, as amended. No count is checked. With an auxiliary length and a reference
  count that are not positive, \<^verbatim>\<open>Read\<close> skips nothing, reads no reference and returns
  the header chunk alone, whatever the depth, provided \<^verbatim>\<open>BinsForRange\<close> returns; a bin
  count or a chunk count that is not positive ends its loop at once, without an error.
\<close>

theorem Read_accepts_negative_counts:
  fixes minShift depth laux refCount :: "32 word"
  shows
  "(laux \<le>s 0 \<and> refCount \<le>s 0 \<and>
      BinsForRange (Region.Start rg) (Region.End rg) minShift depth = Some bins \<longrightarrow>
        Read (csiMagic @ le_bytes 4 minShift @ le_bytes 4 depth @ le_bytes 4 laux @
              le_bytes 4 refCount @ rest) rg =
          Some (Inr [\<lparr>Chunk.Start = 0, Chunk.End = LastAddress\<rparr>])) \<and>
   (binCount \<le>s 0 \<longrightarrow>
      bin_records_loop rg bins reference binCount 0 (gzr, header, chunks) =
        Inr (gzr, header, chunks)) \<and>
   (Chunks bin \<le>s 0 \<longrightarrow>
      chunks_loop bin includeChunks 0 (gzr, header, chunks) = Inr (gzr, header, chunks))"
proof (intro conjI impI)
  assume "laux \<le>s 0 \<and> refCount \<le>s 0 \<and>
      BinsForRange (Region.Start rg) (Region.End rg) minShift depth = Some bins"
  then show "Read (csiMagic @ le_bytes 4 minShift @ le_bytes 4 depth @ le_bytes 4 laux @
              le_bytes 4 refCount @ rest) rg =
          Some (Inr [\<lparr>Chunk.Start = 0, Chunk.End = LastAddress\<rparr>])"
    by (intro Read_no_references) simp_all
next
  assume "binCount \<le>s 0"
  then have "\<not> 0 <s binCount" by (simp add: word_sle_eq word_sless_alt)
  then show "bin_records_loop rg bins reference binCount 0 (gzr, header, chunks) =
        Inr (gzr, header, chunks)"
    by (subst bin_records_loop.simps) simp
next
  assume "Chunks bin \<le>s 0"
  then have "\<not> 0 <s Chunks bin" by (simp add: word_sle_eq word_sless_alt)
  then show "chunks_loop bin includeChunks 0 (gzr, header, chunks) = Inr (gzr, header, chunks)"
    by (subst chunks_loop.simps) simp
qed


theorem Read_accepts_negative_counts_witness:
  "Read (csiMagic @ le_bytes 4 (14 :: 32 word) @ le_bytes 4 (- 1 :: 32 word) @
         le_bytes 4 (- 1 :: 32 word) @ le_bytes 4 (- 1 :: 32 word) @ [])
        \<lparr>ReferenceID = 0, Region.Start = 5, Region.End = 3\<rparr> =
     Some (Inr [\<lparr>Chunk.Start = 0, Chunk.End = LastAddress\<rparr>]) \<and>
   bin_records_loop \<lparr>ReferenceID = 0, Region.Start = 5, Region.End = 3\<rparr> [] 0 (- 1) 0
        ([], \<lparr>Chunk.Start = 0, Chunk.End = LastAddress\<rparr>, []) =
     Inr ([], \<lparr>Chunk.Start = 0, Chunk.End = LastAddress\<rparr>, []) \<and>
   chunks_loop \<lparr>ID = 1, Offset = 0, Chunks = - 1\<rparr> True 0
        ([], \<lparr>Chunk.Start = 0, Chunk.End = LastAddress\<rparr>, []) =
     Inr ([], \<lparr>Chunk.Start = 0, Chunk.End = LastAddress\<rparr>, [])"
  using Read_accepts_negative_counts
          [of "- 1" "- 1" "\<lparr>ReferenceID = 0, Region.Start = 5, Region.End = 3\<rparr>" 14 "- 1" "[]" "[]"
              "- 1" 0 "[]" "\<lparr>Chunk.Start = 0, Chunk.End = LastAddress\<rparr>" "[]"
              "\<lparr>ID = 1, Offset = 0, Chunks = - 1\<rparr>" True]
  by (simp add: word_sle_eq BinsForRange_def maximumReadLength_def)

text \<open>
  The claim as first stated has every negative count reported as an error. Here the
  auxiliary length and the reference count are both \<open>-1\<close>, and \<^verbatim>\<open>Read\<close> returns the
  header chunk.
\<close>

theorem Read_negative_reference_count:
  "Read (csiMagic @ le_bytes 4 (14 :: 32 word) @ le_bytes 4 (5 :: 32 word) @
         le_bytes 4 (- 1 :: 32 word) @ le_bytes 4 (- 1 :: 32 word))
     \<lparr>ReferenceID = 0, Region.Start = 0, Region.End = 0\<rparr> =
   Some (Inr [\<lparr>Chunk.Start = 0, Chunk.End = LastAddress\<rparr>])"
proof -
  obtain bins where "BinsForRange 0 0 14 5 = Some bins"
    using BinsForRange_returns [of 5 0 0 14] by (auto simp: word_sle_eq)
  then show ?thesis
    using Read_no_references [of "- 1" "- 1" "\<lparr>ReferenceID = 0, Region.Start = 0, Region.End = 0\<rparr>"
            14 5 bins "[]"]
    by (simp add: word_sle_eq)
qed

text \<open>
  A depth of \<open>-1\<close> is not reported either: the bound \<^verbatim>\<open>uint(depth)\<close> of the level loop
  is then the largest unsigned value, the loop never exits, and neither \<^verbatim>\<open>BinsForRange\<close>
  nor \<^verbatim>\<open>Read\<close> returns.
\<close>

lemma levels_loop_never_exits: "levels_loop start e1 (- 1) l t s bins = None"
proof (rule ccontr)
  assume "levels_loop start e1 (- 1) l t s bins \<noteq> None"
  then obtain y where y: "levels_loop start e1 (- 1) l t s bins = Some y" by auto
  have "(- 1 :: 32 word) \<noteq> - 1"
  proof (rule levels_loop.raw_induct
            [where P = "\<lambda>start e1 depth l t s bins y. depth \<noteq> - 1", OF _ y])
    fix f :: "32 word \<Rightarrow> 32 word \<Rightarrow> 32 word \<Rightarrow> 64 word \<Rightarrow> 64 word \<Rightarrow> 64 word
                \<Rightarrow> 16 word list \<Rightarrow> 16 word list option"
      and start e1 depth :: "32 word" and l t s :: "64 word" and bins y :: "16 word list"
    assume ih: "\<And>start e1 depth l t s bins y.
                  f start e1 depth l t s bins = Some y \<Longrightarrow> depth \<noteq> - 1"
      and step: "(if l \<le> scast depth
                  then bins_loop (t + drop_bit (unat s) (ucast start))
                         (t + drop_bit (unat s) (ucast e1)) bins \<bind>
                       f start e1 depth (l + 1) (t + push_bit (unat (l * 3)) 1) (s - 3)
                  else Some bins) = Some y"
    show "depth \<noteq> - 1"
    proof
      assume d: "depth = - 1"
      then have "l \<le> scast depth" by simp
      with step obtain b' where
        "f start e1 depth (l + 1) (t + push_bit (unat (l * 3)) 1) (s - 3) b' = Some y"
        by (auto simp: bind_eq_Some_conv)
      then have "depth \<noteq> - 1" by (rule ih)
      then show False using d by simp
    qed
  qed
  then show False by simp
qed

lemma BinsForRange_never_returns: "BinsForRange 0 1 14 (- 1) = None"
  by (simp add: BinsForRange_def maximumReadLength_def levels_loop_never_exits)

lemma Read_never_returns:
  "Read (csiMagic @ le_bytes 4 (14 :: 32 word) @ le_bytes 4 (- 1 :: 32 word) @ rest)
     \<lparr>ReferenceID = 0, Region.Start = 0, Region.End = 1\<rparr> = None"
  by (simp add: Read_def ExpectBytes_encoded read_int32_encoded BinsForRange_never_returns)


section \<open>The reference resolver\<close>

text \<open>
  Claim C9. \<^verbatim>\<open>contigDefinesReference\<close> indexes the line at the position after the match
  without comparing it with the length of the line: on a line that ends with the match
  the index is the length of the line, and the access panics.
\<close>

theorem contigDefinesReference_out_of_bounds:
  "contigDefinesReference ''##contig=<ID=chr1'' ''chr1'' = None"
  by (simp add: contigDefinesReference_def HasPrefix_def)

subsection \<open>The scanner on lines it accepts\<close>



lemma Scan_last:
  assumes "CHR 0x0A \<notin> set line" and "length line < MaxScanTokenSize" and "line \<noteq> []"
  shows "Scan line = ([dropCR line], False)"
proof -
  have tw: "takeWhile (\<lambda>c. c \<noteq> CHR 0x0A) line = line"
    using assms(1) by (induction line) auto
  have dw: "dropWhile (\<lambda>c. c \<noteq> CHR 0x0A) line = []"
    using assms(1) by (induction line) auto
  show ?thesis
    using assms(2,3) by (subst Scan.simps) (simp add: tw dw)
qed

subsection \<open>The loop over the header lines\<close>











section \<open>The request orchestrator\<close>

lemma open_loop_all_fail:
  "\<forall>x \<in> set objs. \<exists>e. NewReader x = Inl e \<Longrightarrow> objs \<noteq> [] \<Longrightarrow>
   open_loop NewReader objs index err trace =
     (None, Some (projl (NewReader (last objs))), trace @ map OpenObject objs)"
proof (induction objs arbitrary: index err trace)
  case Nil
  then show ?case by simp
next
  case (Cons x xs)
  then obtain e where e: "NewReader x = Inl e" by auto
  show ?case
  proof (cases "xs = []")
    case True
    then show ?thesis using e by simp
  next
    case False
    then show ?thesis using Cons e by simp
  qed
qed

lemma open_loop_first_success:
  "\<forall>x \<in> set pre. \<exists>e. NewReader x = Inl e \<Longrightarrow> NewReader ob = Inr r \<Longrightarrow>
   open_loop NewReader (pre @ ob # post) index err trace =
     (Some r, None, trace @ map OpenObject (pre @ [ob]))"
proof (induction pre arbitrary: index err trace)
  case Nil
  then show ?case by simp
next
  case (Cons x xs)
  then obtain e where e: "NewReader x = Inl e" by auto
  then show ?case using Cons by simp
qed

text \<open>
  Claim C7. With a candidate that opens after candidates that all fail, \<^verbatim>\<open>handle\<close> opens
  exactly the candidates up to that one, in order, and reads the index from its reader;
  the candidates after it are not opened. With a non-empty list of candidates that all
  fail, it opens each in order, never calls \<^verbatim>\<open>read\<close>, and returns the storage error
  wrapping the error of the last candidate.
\<close>

theorem handle_candidates_in_order:
  "((\<forall>x \<in> set pre. \<exists>e. NewReader x = Inl e) \<and> NewReader ob = Inr r \<and>
     indexObjects req = pre @ ob # post \<longrightarrow>
       handle NewReader Merge req =
         (map OpenObject (pre @ [ob]) @ [CallRead (Some r), CallClose (Some r)],
          (case read req (Some r) (region req) of
             Inl e \<Rightarrow> Inl (ReadingIndex e)
           | Inr chunks \<Rightarrow> Inr (Merge chunks (blockSizeLimit req))))) \<and>
   ((\<forall>x \<in> set (indexObjects req). \<exists>e. NewReader x = Inl e) \<and> indexObjects req \<noteq> [] \<longrightarrow>
       handle NewReader Merge req =
         (map OpenObject (indexObjects req),
          Inl (StorageError ''opening index'' (projl (NewReader (last (indexObjects req)))))))"
  by (auto simp: handle_def open_loop_first_success open_loop_all_fail split: sum.splits)

theorem handle_candidates_in_order_witness:
  "handle (\<lambda>n :: nat. if n = 2 then Inr ''reader'' else Inl n) (\<lambda>cs limit. cs)
      \<lparr>indexObjects = [0, 1, 2, 3], blockSizeLimit = 0,
       region = \<lparr>ReferenceID = 0, Region.Start = 0, Region.End = 0\<rparr>,
       read = (\<lambda>index rg. Inr [] :: unit + Chunk list)\<rparr> =
     ([OpenObject 0, OpenObject 1, OpenObject 2,
       CallRead (Some ''reader''), CallClose (Some ''reader'')], Inr []) \<and>
   handle (\<lambda>n :: nat. Inl (10 * n) :: nat + string) (\<lambda>cs limit. cs)
      \<lparr>indexObjects = [0, 1, 2, 3], blockSizeLimit = 0,
       region = \<lparr>ReferenceID = 0, Region.Start = 0, Region.End = 0\<rparr>,
       read = (\<lambda>index rg. Inr [] :: unit + Chunk list)\<rparr> =
     ([OpenObject 0, OpenObject 1, OpenObject 2, OpenObject 3],
      Inl (StorageError ''opening index'' 30))"
  using handle_candidates_in_order
          [of "[0, 1]" "\<lambda>n :: nat. if n = 2 then Inr ''reader'' else Inl n" 2 "''reader''"
              "\<lparr>indexObjects = [0, 1, 2, 3], blockSizeLimit = 0,
                region = \<lparr>ReferenceID = 0, Region.Start = 0, Region.End = 0\<rparr>,
                read = (\<lambda>index rg. Inr [] :: unit + Chunk list)\<rparr>" "[3]" "\<lambda>cs limit. cs"]
        handle_candidates_in_order
          [of "[]" "\<lambda>n :: nat. Inl (10 * n) :: nat + string" 0 "''reader''"
              "\<lparr>indexObjects = [0, 1, 2, 3], blockSizeLimit = 0,
                region = \<lparr>ReferenceID = 0, Region.Start = 0, Region.End = 0\<rparr>,
                read = (\<lambda>index rg. Inr [] :: unit + Chunk list)\<rparr>" "[]" "\<lambda>cs limit. cs"]
  by simp

text \<open>
  Claim C10. With no candidate the loop body never runs, the error stays nil, and
  \<^verbatim>\<open>handle\<close> calls \<^verbatim>\<open>read\<close> with the nil reader; what it returns is what \<^verbatim>\<open>read\<close>
  made of it, never a storage error.
\<close>

theorem handle_no_candidates:
  "indexObjects req = [] \<Longrightarrow>
     handle NewReader Merge req =
       ([CallRead None, CallClose None],
        (case read req None (region req) of
           Inl e \<Rightarrow> Inl (ReadingIndex e)
         | Inr chunks \<Rightarrow> Inr (Merge chunks (blockSizeLimit req)))) \<and>
     (\<forall>msg e. snd (handle NewReader Merge req) \<noteq> Inl (StorageError msg e))"
  by (auto simp: handle_def split: sum.splits)

theorem handle_no_candidates_witness:
  "handle (\<lambda>n :: nat. Inl n :: nat + string) (\<lambda>cs limit. cs)
      \<lparr>indexObjects = [], blockSizeLimit = 0,
       region = \<lparr>ReferenceID = 0, Region.Start = 0, Region.End = 0\<rparr>,
       read = (\<lambda>index rg. Inl () :: unit + Chunk list)\<rparr> =
     ([CallRead None, CallClose None], Inl (ReadingIndex ()))"
  using handle_no_candidates
          [of "\<lparr>indexObjects = [], blockSizeLimit = 0,
                region = \<lparr>ReferenceID = 0, Region.Start = 0, Region.End = 0\<rparr>,
                read = (\<lambda>index rg. Inl () :: unit + Chunk list)\<rparr>"
              "\<lambda>n :: nat. Inl n :: nat + string" "\<lambda>cs limit. cs"]
  by simp

end
